theory Spec2Isabelle
  imports Main "HOL-Library.Word"
begin

section \<open>Contract ABI encoding and block selectors of the seth client\<close>

text \<open>
  A shallow embedding of \<^verbatim>\<open>send.go\<close> (package seth) and of \<^verbatim>\<open>blocknum\<close> (the command's
  helper). Byte slices are lists of 8-bit words, Go strings are lists of characters (bytes),
  a panic or a fatal exit is the left summand of a sum type.
\<close>

subsection \<open>Data\<close>

type_synonym byte = "8 word"

text \<open>\<^verbatim>\<open>type Address [20]byte\<close> and \<^verbatim>\<open>type Hash [32]byte\<close>: arrays of a fixed length.\<close>

typedef address = "{bs :: byte list. length bs = 20}"
  by (rule exI [of _ "replicate 20 0"]) simp

typedef hash = "{bs :: byte list. length bs = 32}"
  by (rule exI [of _ "replicate 32 0"]) simp

text \<open>
  The values behind the interface \<^verbatim>\<open>EtherType\<close>: \<^verbatim>\<open>*Address\<close>, \<^verbatim>\<open>*Int\<close> (a \<^verbatim>\<open>big.Int\<close>; the constructor is \<open>IntVal\<close>),
  \<^verbatim>\<open>*Data\<close> (a byte slice), \<^verbatim>\<open>*IntSlice\<close> and \<^verbatim>\<open>*AddrSlice\<close>. The method \<^verbatim>\<open>internal\<close> closes
  the interface to the package. Pointers are taken to be non-nil.
\<close>

datatype EtherType =
    Address address
  | IntVal int
  | Data "byte list"
  | IntSlice "int list"
  | AddrSlice "address list"

text \<open>The panics of \<^verbatim>\<open>send.go\<close> and the fatal exit of \<^verbatim>\<open>blocknum\<close>, one constructor each.\<close>

datatype error =
    IllegalCharacters
  | NoLeftParen
  | BadRightParen
  | MismatchedArgumentLists nat nat
  | AddressNotAnAddress
  | ArgumentNotAnInt
  | ArgumentNotIntOrData
  | ArgumentNotASlice
  | IndexOutOfRange
  | IntegerOverflow
  | DataTooLong
  | BadBlockSpecifier

text \<open>The error kinds of the specification that the panics fall under.\<close>

datatype error_kind =
    MalformedSignature
  | ArityMismatch
  | TypeMismatch
  | EncodingOverflow
  | MalformedBlockSpecifier
  | RuntimePanic

fun kind_of :: "error \<Rightarrow> error_kind" where
  "kind_of IllegalCharacters = MalformedSignature"
| "kind_of NoLeftParen = MalformedSignature"
| "kind_of BadRightParen = MalformedSignature"
| "kind_of (MismatchedArgumentLists n m) = ArityMismatch"
| "kind_of AddressNotAnAddress = TypeMismatch"
| "kind_of ArgumentNotAnInt = TypeMismatch"
| "kind_of ArgumentNotIntOrData = TypeMismatch"
| "kind_of ArgumentNotASlice = TypeMismatch"
| "kind_of IndexOutOfRange = RuntimePanic"
| "kind_of IntegerOverflow = EncodingOverflow"
| "kind_of DataTooLong = EncodingOverflow"
| "kind_of BadBlockSpecifier = MalformedBlockSpecifier"

subsection \<open>Go built-ins and library functions used by the encoder\<close>

text \<open>\<^verbatim>\<open>copy(dst, src)\<close> overwrites the first \<^verbatim>\<open>min(len(dst), len(src))\<close> elements of \<^verbatim>\<open>dst\<close>.\<close>

definition copy :: "'a list \<Rightarrow> 'a list \<Rightarrow> 'a list" where
  "copy dst src = take (length dst) src @ drop (length src) dst"

text \<open>\<^verbatim>\<open>copy(dst[off:], src)\<close>, seen from \<^verbatim>\<open>dst\<close>; the callers keep \<^verbatim>\<open>off \<le> len(dst)\<close>.\<close>

definition copy_at :: "'a list \<Rightarrow> nat \<Rightarrow> 'a list \<Rightarrow> 'a list" where
  "copy_at dst off src = take off dst @ copy (drop off dst) src"

text \<open>\<^verbatim>\<open>var w [32]byte\<close>: the zero word.\<close>

definition zero_word :: "byte list" where
  "zero_word = replicate 32 0"

text \<open>\<^verbatim>\<open>(*big.Int).Bytes\<close>: the magnitude, big-endian, without leading zero bytes.\<close>

fun nat_bytes :: "nat \<Rightarrow> byte list" where
  "nat_bytes n = (if n = 0 then [] else nat_bytes (n div 256) @ [of_nat (n mod 256)])"

declare nat_bytes.simps [simp del]

definition Bytes :: "int \<Rightarrow> byte list" where
  "Bytes i = nat_bytes (nat \<bar>i\<bar>)"

text \<open>\<^verbatim>\<open>binary.BigEndian.PutUint64(b, v)\<close> on a slice of at least 8 bytes.\<close>

definition PutUint64 :: "byte list \<Rightarrow> 64 word \<Rightarrow> byte list" where
  "PutUint64 b v =
     [ucast (drop_bit 56 v), ucast (drop_bit 48 v), ucast (drop_bit 40 v),
      ucast (drop_bit 32 v), ucast (drop_bit 24 v), ucast (drop_bit 16 v),
      ucast (drop_bit 8 v), ucast v] @ drop 8 b"

subsection \<open>The scalar encodings\<close>

definition Address_EncodeABI :: "address \<Rightarrow> byte list \<Rightarrow> byte list" where
  "Address_EncodeABI a v = v @ copy_at zero_word 12 (Rep_address a)"

definition Int_EncodeABI :: "int \<Rightarrow> byte list \<Rightarrow> error + byte list" where
  "Int_EncodeABI i v =
     (let bits = Bytes i in
      if length bits > 32 then Inl IntegerOverflow
      else Inr (v @ copy_at zero_word (32 - length bits) bits))"

definition Data_EncodeABI :: "byte list \<Rightarrow> byte list \<Rightarrow> error + byte list" where
  "Data_EncodeABI d v =
     (if length d > 32 then Inl DataTooLong
      else Inr (v @ copy zero_word d))"

text \<open>\<^verbatim>\<open>padint\<close>: Go's \<^verbatim>\<open>uint\<close> is taken at 64 bits.\<close>

definition padint :: "64 word \<Rightarrow> byte list \<Rightarrow> byte list" where
  "padint i v = v @ take 24 zero_word @ PutUint64 (drop 24 zero_word) i"

subsection \<open>The slices\<close>

fun IntSlice_EncodeABI :: "int list \<Rightarrow> byte list \<Rightarrow> error + byte list" where
  "IntSlice_EncodeABI [] v = Inr v"
| "IntSlice_EncodeABI (x # xs) v =
     (case Int_EncodeABI x v of Inl e \<Rightarrow> Inl e | Inr v' \<Rightarrow> IntSlice_EncodeABI xs v')"

fun AddrSlice_EncodeABI :: "address list \<Rightarrow> byte list \<Rightarrow> byte list" where
  "AddrSlice_EncodeABI [] v = v"
| "AddrSlice_EncodeABI (a # as) v = AddrSlice_EncodeABI as (Address_EncodeABI a v)"

text \<open>The dynamic type tests \<^verbatim>\<open>a.(EtherSlice)\<close>, and the method calls through the interface.\<close>

fun is_EtherSlice :: "EtherType \<Rightarrow> bool" where
  "is_EtherSlice (IntSlice xs) = True"
| "is_EtherSlice (AddrSlice as) = True"
| "is_EtherSlice a = False"

fun Len :: "EtherType \<Rightarrow> nat" where
  "Len (IntSlice xs) = length xs"
| "Len (AddrSlice as) = length as"
| "Len a = 0"

fun EncodeABI :: "EtherType \<Rightarrow> byte list \<Rightarrow> error + byte list" where
  "EncodeABI (Address a) v = Inr (Address_EncodeABI a v)"
| "EncodeABI (IntVal i) v = Int_EncodeABI i v"
| "EncodeABI (Data d) v = Data_EncodeABI d v"
| "EncodeABI (IntSlice xs) v = IntSlice_EncodeABI xs v"
| "EncodeABI (AddrSlice as) v = Inr (AddrSlice_EncodeABI as v)"

subsection \<open>The signature check\<close>

text \<open>
  The constant \<^verbatim>\<open>illegal\<close>: space, tab, newline, backspace, the punctuation, the double
  quote (0x22) and the backslash (0x5C).
\<close>

definition illegal :: string where
  "illegal = [CHR '' '', CHR 0x09, CHR 0x0A, CHR 0x08] @ ''-+/~!@#$%^&*=|;:''
             @ [CHR 0x22] @ ''<>'' @ [CHR 0x5C] @ ''?''"

definition ContainsAny :: "string \<Rightarrow> string \<Rightarrow> bool" where
  "ContainsAny s chars = list_ex (\<lambda>c. c \<in> set chars) s"

text \<open>\<^verbatim>\<open>strings.IndexByte\<close>: the index of the first occurrence, or -1.\<close>

fun IndexByte :: "string \<Rightarrow> char \<Rightarrow> int" where
  "IndexByte [] c = -1"
| "IndexByte (x # xs) c =
     (if x = c then 0
      else (let r = IndexByte xs c in if r = -1 then -1 else r + 1))"

text \<open>The slice expression \<^verbatim>\<open>s[lo:hi]\<close> for \<^verbatim>\<open>0 \<le> lo \<le> hi \<le> len(s)\<close>.\<close>

definition substr :: "string \<Rightarrow> int \<Rightarrow> int \<Rightarrow> string" where
  "substr s lo hi = take (nat hi - nat lo) (drop (nat lo) s)"

text \<open>\<^verbatim>\<open>strings.Contains\<close> and \<^verbatim>\<open>strings.Split\<close> with the one-byte separator of the source.\<close>

definition Contains :: "string \<Rightarrow> char \<Rightarrow> bool" where
  "Contains s sep = (sep \<in> set s)"

fun Split :: "string \<Rightarrow> char \<Rightarrow> string list" where
  "Split [] sep = [[]]"
| "Split (c # cs) sep =
     (if c = sep then [] # Split cs sep
      else (case Split cs sep of [] \<Rightarrow> [[c]] | p # ps \<Rightarrow> (c # p) # ps))"

definition HasSuffix :: "string \<Rightarrow> string \<Rightarrow> bool" where
  "HasSuffix s suffix =
     (length suffix \<le> length s \<and> drop (length s - length suffix) s = suffix)"

text \<open>One turn of the loop of \<^verbatim>\<open>typecheck\<close>: the \<^verbatim>\<open>switch\<close> on the declared type.\<close>

definition check_arg :: "string \<Rightarrow> EtherType \<Rightarrow> error + unit" where
  "check_arg t a =
     (if t = ''address'' then
        (case a of Address _ \<Rightarrow> Inr () | _ \<Rightarrow> Inl AddressNotAnAddress)
      else if t = ''uint'' \<or> t = ''uint256'' \<or> t = ''int'' \<or> t = ''int256'' then
        (case a of IntVal _ \<Rightarrow> Inr () | _ \<Rightarrow> Inl ArgumentNotAnInt)
      else if t = ''bytes32'' then
        (case a of Data _ \<Rightarrow> Inr () | IntVal _ \<Rightarrow> Inr () | _ \<Rightarrow> Inl ArgumentNotIntOrData)
      else if HasSuffix t ''[]'' then
        (if is_EtherSlice a then Inr () else Inl ArgumentNotASlice)
      else Inr ())"

text \<open>\<^verbatim>\<open>for i := range argstrings\<close>, reading \<^verbatim>\<open>args[i]\<close>.\<close>

fun check_loop :: "string list \<Rightarrow> EtherType list \<Rightarrow> nat \<Rightarrow> error + unit" where
  "check_loop [] args i = Inr ()"
| "check_loop (t # ts) args i =
     (if length args \<le> i then Inl IndexOutOfRange
      else (case check_arg t (args ! i) of
              Inl e \<Rightarrow> Inl e
            | Inr u \<Rightarrow> check_loop ts args (Suc i)))"

definition typecheck :: "string \<Rightarrow> EtherType list \<Rightarrow> error + unit" where
  "typecheck f args =
     (if ContainsAny f illegal then Inl IllegalCharacters
      else
        let lparen = IndexByte f (CHR ''('') in
        if lparen = -1 then Inl NoLeftParen
        else
          let rparen = IndexByte f (CHR '')'') in
          if rparen \<noteq> int (length f) - 1 then Inl BadRightParen
          else
            let inner = substr f (lparen + 1) rparen in
            if Contains inner (CHR '','') then
              (let argstrings = Split inner (CHR '','') in
               if length argstrings \<noteq> length args
               then Inl (MismatchedArgumentLists (length argstrings) (length args))
               else check_loop argstrings args 0)
            else check_loop [] args 0)"

subsection \<open>The encoder\<close>

text \<open>
  The first loop of \<^verbatim>\<open>ABIEncode\<close>: a slice leaves its offset word and is queued, a scalar
  is encoded in place. The state is \<^verbatim>\<open>buf\<close>, \<^verbatim>\<open>dyn\<close> and \<^verbatim>\<open>dynoff\<close>.
\<close>

fun static_loop ::
  "EtherType list \<Rightarrow> byte list \<Rightarrow> EtherType list \<Rightarrow> 64 word
   \<Rightarrow> error + (byte list \<times> EtherType list)" where
  "static_loop [] buf dyn dynoff = Inr (buf, dyn)"
| "static_loop (a # as) buf dyn dynoff =
     (if is_EtherSlice a
      then static_loop as (padint dynoff buf) (dyn @ [a]) (dynoff + 32)
      else (case EncodeABI a buf of
              Inl e \<Rightarrow> Inl e
            | Inr buf' \<Rightarrow> static_loop as buf' dyn dynoff))"

text \<open>The second loop: the length word, then the elements.\<close>

fun dyn_loop :: "EtherType list \<Rightarrow> byte list \<Rightarrow> error + byte list" where
  "dyn_loop [] buf = Inr buf"
| "dyn_loop (d # ds) buf =
     (case EncodeABI d (padint (of_nat (Len d)) buf) of
        Inl e \<Rightarrow> Inl e
      | Inr buf' \<Rightarrow> dyn_loop ds buf')"

text \<open>
  \<^verbatim>\<open>ABIEncode\<close>. The hash function \<^verbatim>\<open>HashString\<close> is declared in another file of the
  package; it is a parameter here.
\<close>

definition ABIEncode :: "(string \<Rightarrow> hash) \<Rightarrow> string \<Rightarrow> EtherType list \<Rightarrow> error + byte list" where
  "ABIEncode HashString fn args =
     (case typecheck fn args of
        Inl e \<Rightarrow> Inl e
      | Inr u \<Rightarrow>
          let fhash = Rep_hash (HashString fn);
              buf = copy (replicate 4 0) (take 4 fhash);
              dynoff = of_nat (length args) * 32
          in (case static_loop args buf [] dynoff of
                Inl e \<Rightarrow> Inl e
              | Inr (buf', dyn) \<Rightarrow> dyn_loop dyn buf'))"

subsection \<open>Block selectors\<close>

text \<open>
  Modelled from the spec: the constants \<^verbatim>\<open>seth.Latest\<close> and \<^verbatim>\<open>seth.Pending\<close> and the raw
  messages \<^verbatim>\<open>rawlatest\<close> and \<^verbatim>\<open>rawpending\<close> are declared in another file of the package.
  The specification calls them the reserved sentinels for "latest" and "pending" and the
  JSON-RPC string literals \<^verbatim>\<open>"latest"\<close> and \<^verbatim>\<open>"pending"\<close>; the values -1 and -2 are the
  ones that the \<^verbatim>\<open>switch\<close> of \<^verbatim>\<open>StorageAt\<close> pairs with the two raw messages.
\<close>

definition Latest :: "64 word" where
  "Latest = - 1"

definition Pending :: "64 word" where
  "Pending = - 2"

definition rawlatest :: string where
  "rawlatest = [CHR 0x22] @ ''latest'' @ [CHR 0x22]"

definition rawpending :: string where
  "rawpending = [CHR 0x22] @ ''pending'' @ [CHR 0x22]"

subsection \<open>Go's \<^verbatim>\<open>strconv.ParseInt\<close>\<close>

text \<open>
  The standard library's parser, as \<^verbatim>\<open>blocknum\<close> calls it. A byte is read as its code
  (a natural number below 256), \<^verbatim>\<open>uint64\<close> and \<^verbatim>\<open>int64\<close> are 64-bit words.
\<close>

datatype num_error = ErrSyntax | ErrRange | ErrBase | ErrBitSize

text \<open>\<^verbatim>\<open>lower(c) = c | ('x' - 'X')\<close>: bit 5 is set.\<close>

definition lower :: "char \<Rightarrow> nat" where
  "lower c = (let n = of_char c :: nat in if (n div 32) mod 2 = 1 then n else n + 32)"

text \<open>The digit that a byte stands for, in any base up to 36.\<close>

definition digit_val :: "char \<Rightarrow> nat option" where
  "digit_val c =
     (let n = of_char c :: nat in
      if 48 \<le> n \<and> n \<le> 57 then Some (n - 48)
      else if 97 \<le> lower c \<and> lower c \<le> 122 then Some (lower c - 97 + 10)
      else None)"

text \<open>
  The loop of \<^verbatim>\<open>ParseUint\<close> over the bytes after the prefix. The left summand is an early
  return (value and error), the right one the end of the loop with \<^verbatim>\<open>n\<close> and \<^verbatim>\<open>underscores\<close>.
\<close>

fun ParseUint_loop ::
  "string \<Rightarrow> bool \<Rightarrow> nat \<Rightarrow> 64 word \<Rightarrow> 64 word \<Rightarrow> bool \<Rightarrow> 64 word
   \<Rightarrow> (64 word \<times> num_error) + (64 word \<times> bool)" where
  "ParseUint_loop [] base0 base cutoff maxVal underscores n = Inr (n, underscores)"
| "ParseUint_loop (c # cs) base0 base cutoff maxVal underscores n =
     (if c = CHR ''_'' \<and> base0 then ParseUint_loop cs base0 base cutoff maxVal True n
      else (case digit_val c of
              None \<Rightarrow> Inl (0, ErrSyntax)
            | Some d \<Rightarrow>
                if d \<ge> base then Inl (0, ErrSyntax)
                else if n \<ge> cutoff then Inl (maxVal, ErrRange)
                else
                  let n' = n * of_nat base; n1 = n' + of_nat d in
                  if n1 < n' \<or> n1 > maxVal then Inl (maxVal, ErrRange)
                  else ParseUint_loop cs base0 base cutoff maxVal underscores n1))"

text \<open>\<^verbatim>\<open>underscoreOK\<close>: an underscore only between digits or between a base prefix and a digit.\<close>

fun underscoreOK_loop :: "string \<Rightarrow> bool \<Rightarrow> char \<Rightarrow> bool" where
  "underscoreOK_loop [] hex saw = (saw \<noteq> CHR ''_'')"
| "underscoreOK_loop (c # cs) hex saw =
     (if (48 \<le> (of_char c :: nat) \<and> (of_char c :: nat) \<le> 57)
         \<or> (hex \<and> 97 \<le> lower c \<and> lower c \<le> 102)
      then underscoreOK_loop cs hex (CHR ''0'')
      else if c = CHR ''_'' then
        (if saw \<noteq> CHR ''0'' then False else underscoreOK_loop cs hex (CHR ''_''))
      else if saw = CHR ''_'' then False
      else underscoreOK_loop cs hex (CHR ''!''))"

definition has_base_prefix :: "string \<Rightarrow> bool" where
  "has_base_prefix s =
     (length s \<ge> 2 \<and> s ! 0 = CHR ''0'' \<and>
      (lower (s ! 1) = of_char (CHR ''b'') \<or> lower (s ! 1) = of_char (CHR ''o'')
       \<or> lower (s ! 1) = of_char (CHR ''x'')))"

definition underscoreOK :: "string \<Rightarrow> bool" where
  "underscoreOK s =
     (let s1 = (if length s \<ge> 1 \<and> (s ! 0 = CHR ''-'' \<or> s ! 0 = CHR ''+'') then drop 1 s else s)
      in if has_base_prefix s1
         then underscoreOK_loop (drop 2 s1) (lower (s1 ! 1) = of_char (CHR ''x'')) (CHR ''0'')
         else underscoreOK_loop s1 False (CHR ''^''))"

text \<open>The base and the rest of the string after the prefix; \<open>None\<close> is an invalid base.\<close>

definition base_prefix :: "string \<Rightarrow> int \<Rightarrow> (nat \<times> string) option" where
  "base_prefix s base =
     (if 2 \<le> base \<and> base \<le> 36 then Some (nat base, s)
      else if base = 0 then
        (if s ! 0 = CHR ''0'' then
           (if length s \<ge> 3 \<and> lower (s ! 1) = of_char (CHR ''b'') then Some (2, drop 2 s)
            else if length s \<ge> 3 \<and> lower (s ! 1) = of_char (CHR ''o'') then Some (8, drop 2 s)
            else if length s \<ge> 3 \<and> lower (s ! 1) = of_char (CHR ''x'') then Some (16, drop 2 s)
            else Some (8, drop 1 s))
         else Some (10, s))
      else None)"

definition ParseUint :: "string \<Rightarrow> int \<Rightarrow> int \<Rightarrow> 64 word \<times> num_error option" where
  "ParseUint s base bitSize =
     (if s = [] then (0, Some ErrSyntax)
      else
        (case base_prefix s base of
           None \<Rightarrow> (0, Some ErrBase)
         | Some (b, s') \<Rightarrow>
             let bits = (if bitSize = 0 then 64 else bitSize) in
             if bits < 0 \<or> bits > 64 then (0, Some ErrBitSize)
             else
               let cutoff = (- 1) div of_nat b + 1;
                   maxVal = push_bit (nat bits) 1 - 1
               in (case ParseUint_loop s' (base = 0) b cutoff maxVal False 0 of
                     Inl (v, e) \<Rightarrow> (v, Some e)
                   | Inr (n, underscores) \<Rightarrow>
                       if underscores \<and> \<not> underscoreOK s then (0, Some ErrSyntax)
                       else (n, None))))"

definition ParseInt :: "string \<Rightarrow> int \<Rightarrow> int \<Rightarrow> 64 word \<times> num_error option" where
  "ParseInt s base bitSize =
     (if s = [] then (0, Some ErrSyntax)
      else
        let neg = (s ! 0 = CHR ''-'');
            s' = (if s ! 0 = CHR ''+'' \<or> s ! 0 = CHR ''-'' then drop 1 s else s)
        in (case ParseUint s' base bitSize of
              (un, err) \<Rightarrow>
                if err \<noteq> None \<and> err \<noteq> Some ErrRange then (0, err)
                else
                  let bits = (if bitSize = 0 then 64 else bitSize);
                      cutoff = push_bit (nat (bits - 1)) 1 :: 64 word
                  in if \<not> neg \<and> un \<ge> cutoff then (cutoff - 1, Some ErrRange)
                     else if neg \<and> un > cutoff then (- cutoff, Some ErrRange)
                     else (if neg then - un else un, None)))"

text \<open>\<^verbatim>\<open>blocknum\<close>; \<^verbatim>\<open>fatalf\<close> ends the process.\<close>

definition blocknum :: "string \<Rightarrow> error + 64 word" where
  "blocknum s =
     (if s = ''earliest'' then Inr 0
      else if s = ''latest'' then Inr Latest
      else if s = ''pending'' then Inr Pending
      else (case ParseInt s 0 64 of
              (bn, Some err) \<Rightarrow> Inl BadBlockSpecifier
            | (bn, None) \<Rightarrow> Inr bn))"

subsection \<open>\<^verbatim>\<open>StorageAt\<close>\<close>

text \<open>\<^verbatim>\<open>json.Marshal\<close> of an \<^verbatim>\<open>int64\<close>: the decimal digits, after a minus sign if negative.\<close>

definition digits :: string where
  "digits = ''0123456789''"

fun dec_digits :: "nat \<Rightarrow> string" where
  "dec_digits n =
     (if n < 10 then [digits ! n]
      else dec_digits (n div 10) @ [digits ! (n mod 10)])"

declare dec_digits.simps [simp del]

definition Marshal_int64 :: "64 word \<Rightarrow> string" where
  "Marshal_int64 v =
     (if sint v < 0 then CHR ''-'' # dec_digits (nat (- sint v)) else dec_digits (nat (sint v)))"

text \<open>
  \<^verbatim>\<open>StorageAt\<close> up to the call of the transport: \<^verbatim>\<open>c.do\<close> and the JSON encoders of
  \<^verbatim>\<open>*Address\<close> and \<^verbatim>\<open>*Hash\<close> are parameters.
\<close>

definition StorageAt ::
  "(string \<Rightarrow> string list \<Rightarrow> 'r) \<Rightarrow> (address \<Rightarrow> string) \<Rightarrow> (hash \<Rightarrow> string)
   \<Rightarrow> address \<Rightarrow> hash \<Rightarrow> 64 word \<Rightarrow> 'r" where
  "StorageAt do marshal_address marshal_hash addr offset block =
     (let buf = marshal_address addr;
          buf2 = marshal_hash offset;
          buf3 = (if block = - 2 then rawpending
                  else if block = - 1 then rawlatest
                  else Marshal_int64 block)
      in do ''eth_getStorageAt'' [buf, buf2, buf3])"

subsection \<open>Notions of the specification\<close>

text \<open>An argument that does not fit its word, or an integer slice with such an element.\<close>

fun overflows :: "EtherType \<Rightarrow> bool" where
  "overflows (IntVal i) = (2 ^ 256 \<le> \<bar>i\<bar>)"
| "overflows (Data d) = (32 < length d)"
| "overflows (IntSlice xs) = list_ex (\<lambda>x. 2 ^ 256 \<le> \<bar>x\<bar>) xs"
| "overflows a = False"

text \<open>The 32-byte big-endian word of a number below \<open>2 ^ 256\<close>.\<close>

definition be_word :: "nat \<Rightarrow> byte list" where
  "be_word n = replicate (32 - length (nat_bytes n)) 0 @ nat_bytes n"

text \<open>The number that a list of bytes holds, big-endian.\<close>

definition be_value :: "byte list \<Rightarrow> nat" where
  "be_value bs = foldl (\<lambda>acc b. 256 * acc + unat b) 0 bs"

text \<open>
  A JSON number without fraction and exponent: an optional minus sign, then either a single
  0 or digits that do not start with 0.
\<close>

definition is_digit :: "char \<Rightarrow> bool" where
  "is_digit c = (48 \<le> (of_char c :: nat) \<and> (of_char c :: nat) \<le> 57)"

definition json_digits :: "string \<Rightarrow> bool" where
  "json_digits s = (s \<noteq> [] \<and> list_all is_digit s \<and> (length s = 1 \<or> s ! 0 \<noteq> CHR ''0''))"

definition json_number :: "string \<Rightarrow> bool" where
  "json_number s = (case s of [] \<Rightarrow> False | c # cs \<Rightarrow> if c = CHR ''-'' then json_digits cs else json_digits s)"

text \<open>Hexadecimal digits and the value of a string of them.\<close>

definition is_hex :: "char \<Rightarrow> bool" where
  "is_hex c = (let n = of_char c :: nat in
     (48 \<le> n \<and> n \<le> 57) \<or> (97 \<le> n \<and> n \<le> 102) \<or> (65 \<le> n \<and> n \<le> 70))"

definition hex_digit :: "char \<Rightarrow> nat" where
  "hex_digit c = (let n = of_char c :: nat in
     if n \<le> 57 then n - 48 else if 97 \<le> n then n - 87 else n - 55)"

definition hex_value :: "string \<Rightarrow> nat" where
  "hex_value s = foldl (\<lambda>acc c. 16 * acc + hex_digit c) 0 s"

text \<open>An ASCII letter.\<close>

definition is_letter :: "char \<Rightarrow> bool" where
  "is_letter c = (let n = of_char c :: nat in
     (65 \<le> n \<and> n \<le> 90) \<or> (97 \<le> n \<and> n \<le> 122))"

text \<open>The value of such a number.\<close>

definition dec_value :: "string \<Rightarrow> nat" where
  "dec_value s = foldl (\<lambda>acc c. 10 * acc + (of_char c - 48)) 0 s"

definition json_value :: "string \<Rightarrow> int" where
  "json_value s = (case s of [] \<Rightarrow> 0 | c # cs \<Rightarrow> if c = CHR ''-'' then - int (dec_value cs) else int (dec_value s))"

subsection \<open>Lengths of the encodings\<close>

lemma length_copy [simp]: "length (copy dst src) = length dst"
  by (simp add: copy_def)

lemma length_copy_at [simp]: "off \<le> length dst \<Longrightarrow> length (copy_at dst off src) = length dst"
  by (simp add: copy_at_def)

lemma length_zero_word [simp]: "length zero_word = 32"
  by (simp add: zero_word_def)

lemma length_Rep_address [simp]: "length (Rep_address a) = 20"
  using Rep_address [of a] by simp

lemma length_Rep_hash [simp]: "length (Rep_hash h) = 32"
  using Rep_hash [of h] by simp

lemma Address_EncodeABI_eq: "Address_EncodeABI a v = v @ replicate 12 0 @ Rep_address a"
  by (simp add: Address_EncodeABI_def copy_at_def copy_def zero_word_def)

lemma length_Address_EncodeABI [simp]: "length (Address_EncodeABI a v) = length v + 32"
  by (simp add: Address_EncodeABI_eq)

lemma Int_EncodeABI_eq:
  "length (Bytes i) \<le> 32 \<Longrightarrow>
   Int_EncodeABI i v = Inr (v @ replicate (32 - length (Bytes i)) 0 @ Bytes i)"
  by (simp add: Int_EncodeABI_def copy_at_def copy_def zero_word_def Let_def)

lemma Int_EncodeABI_Inr:
  "Int_EncodeABI i v = Inr out \<Longrightarrow> out = v @ replicate (32 - length (Bytes i)) 0 @ Bytes i \<and> length (Bytes i) \<le> 32"
  by (auto simp: Int_EncodeABI_def copy_at_def copy_def zero_word_def Let_def split: if_splits)

lemma length_Int_EncodeABI: "Int_EncodeABI i v = Inr out \<Longrightarrow> length out = length v + 32"
  by (auto dest!: Int_EncodeABI_Inr)

lemma Data_EncodeABI_eq:
  "length d \<le> 32 \<Longrightarrow> Data_EncodeABI d v = Inr (v @ d @ replicate (32 - length d) 0)"
  by (simp add: Data_EncodeABI_def copy_def zero_word_def)

lemma length_Data_EncodeABI: "Data_EncodeABI d v = Inr out \<Longrightarrow> length out = length v + 32"
  by (auto simp: Data_EncodeABI_def split: if_splits)

lemma length_padint [simp]: "length (padint i v) = length v + 32"
  by (simp add: padint_def PutUint64_def)

lemma length_IntSlice_EncodeABI:
  "IntSlice_EncodeABI xs v = Inr out \<Longrightarrow> length out = length v + 32 * length xs"
  by (induction xs arbitrary: v) (auto split: sum.splits dest: length_Int_EncodeABI)

lemma length_AddrSlice_EncodeABI [simp]:
  "length (AddrSlice_EncodeABI as v) = length v + 32 * length as"
  by (induction as arbitrary: v) auto

lemma length_EncodeABI_scalar:
  "\<not> is_EtherSlice a \<Longrightarrow> EncodeABI a v = Inr out \<Longrightarrow> length out = length v + 32"
  by (cases a) (auto dest: length_Int_EncodeABI length_Data_EncodeABI)

lemma length_EncodeABI_slice:
  "is_EtherSlice a \<Longrightarrow> EncodeABI a v = Inr out \<Longrightarrow> length out = length v + 32 * Len a"
  by (cases a) (auto dest: length_IntSlice_EncodeABI)

lemma static_loop_Inr:
  "static_loop args buf dyn dynoff = Inr (buf', dyn') \<Longrightarrow>
   length buf' = length buf + 32 * length args \<and> dyn' = dyn @ filter is_EtherSlice args"
proof (induction args arbitrary: buf dyn dynoff)
  case Nil
  then show ?case by simp
next
  case (Cons a as)
  show ?case
  proof (cases "is_EtherSlice a")
    case True
    with Cons.prems have "static_loop as (padint dynoff buf) (dyn @ [a]) (dynoff + 32) = Inr (buf', dyn')"
      by simp
    from Cons.IH [OF this] True show ?thesis by simp
  next
    case False
    with Cons.prems obtain b where b: "EncodeABI a buf = Inr b"
      and rest: "static_loop as b dyn dynoff = Inr (buf', dyn')"
      by (auto split: sum.splits)
    from Cons.IH [OF rest] length_EncodeABI_scalar [OF False b] False show ?thesis by simp
  qed
qed

lemma dyn_loop_Inr:
  "dyn_loop dyn buf = Inr out \<Longrightarrow> \<forall>d \<in> set dyn. is_EtherSlice d \<Longrightarrow>
   length out = length buf + 32 * (\<Sum>d\<leftarrow>dyn. 1 + Len d)"
proof (induction dyn arbitrary: buf)
  case Nil
  then show ?case by simp
next
  case (Cons d ds)
  from Cons.prems(1) obtain b where b: "EncodeABI d (padint (of_nat (Len d)) buf) = Inr b"
    and rest: "dyn_loop ds b = Inr out"
    by (auto split: sum.splits)
  from Cons.prems(2) have sl: "is_EtherSlice d" and all: "\<forall>d \<in> set ds. is_EtherSlice d" by simp_all
  from length_EncodeABI_slice [OF sl b] have "length b = length buf + 32 + 32 * Len d" by simp
  with Cons.IH [OF rest all] show ?case by simp
qed

lemma ABIEncode_length:
  assumes "ABIEncode HashString fn args = Inr out"
  shows "length out = 4 + 32 * (length args + (\<Sum>d\<leftarrow>filter is_EtherSlice args. 1 + Len d))"
proof -
  let ?buf = "copy (replicate 4 0) (take 4 (Rep_hash (HashString fn)))"
  from assms obtain buf' dyn where
    st: "static_loop args ?buf [] (of_nat (length args) * 32) = Inr (buf', dyn)"
    and dl: "dyn_loop dyn buf' = Inr out"
    by (auto simp: ABIEncode_def Let_def split: sum.splits prod.splits)
  from static_loop_Inr [OF st] have len: "length buf' = 4 + 32 * length args"
    and dyn: "dyn = filter is_EtherSlice args" by simp_all
  have "\<forall>d \<in> set dyn. is_EtherSlice d" by (simp add: dyn)
  from dyn_loop_Inr [OF dl this] len dyn show ?thesis by (simp add: distrib_left)
qed

subsection \<open>The encoder only appends\<close>

lemma Int_EncodeABI_append: "Int_EncodeABI i v = Inr out \<Longrightarrow> \<exists>s. out = v @ s"
  by (auto dest!: Int_EncodeABI_Inr)

lemma IntSlice_EncodeABI_append: "IntSlice_EncodeABI xs v = Inr out \<Longrightarrow> \<exists>s. out = v @ s"
proof (induction xs arbitrary: v)
  case Nil
  then show ?case by simp
next
  case (Cons x xs)
  then obtain v' where "Int_EncodeABI x v = Inr v'" and "IntSlice_EncodeABI xs v' = Inr out"
    by (auto split: sum.splits)
  with Cons.IH [of v'] show ?case by (auto dest!: Int_EncodeABI_append)
qed

lemma AddrSlice_EncodeABI_append: "\<exists>s. AddrSlice_EncodeABI as v = v @ s"
proof (induction as arbitrary: v)
  case Nil
  then show ?case by simp
next
  case (Cons a as)
  from Cons.IH [of "Address_EncodeABI a v"] show ?case
    by (auto simp: Address_EncodeABI_eq)
qed

lemma EncodeABI_append: "EncodeABI a v = Inr out \<Longrightarrow> \<exists>s. out = v @ s"
proof (cases a)
  case (Address x)
  assume "EncodeABI a v = Inr out"
  with Address show ?thesis by (auto simp: Address_EncodeABI_eq)
next
  case (IntVal i)
  assume "EncodeABI a v = Inr out"
  with IntVal show ?thesis by (auto dest: Int_EncodeABI_append)
next
  case (Data d)
  assume "EncodeABI a v = Inr out"
  with Data show ?thesis by (auto simp: Data_EncodeABI_def split: if_splits)
next
  case (IntSlice xs)
  assume "EncodeABI a v = Inr out"
  with IntSlice show ?thesis by (auto dest: IntSlice_EncodeABI_append)
next
  case (AddrSlice as)
  assume "EncodeABI a v = Inr out"
  with AddrSlice AddrSlice_EncodeABI_append [of as v] show ?thesis by auto
qed

lemma static_loop_append:
  "static_loop args buf dyn dynoff = Inr (buf', dyn') \<Longrightarrow> \<exists>s. buf' = buf @ s"
proof (induction args arbitrary: buf dyn dynoff)
  case Nil
  then show ?case by simp
next
  case (Cons a as)
  show ?case
  proof (cases "is_EtherSlice a")
    case True
    with Cons.prems have "static_loop as (padint dynoff buf) (dyn @ [a]) (dynoff + 32) = Inr (buf', dyn')"
      by simp
    from Cons.IH [OF this] show ?thesis by (auto simp: padint_def)
  next
    case False
    with Cons.prems obtain b where b: "EncodeABI a buf = Inr b"
      and rest: "static_loop as b dyn dynoff = Inr (buf', dyn')"
      by (auto split: sum.splits)
    from Cons.IH [OF rest] EncodeABI_append [OF b] show ?thesis by auto
  qed
qed

lemma dyn_loop_append: "dyn_loop dyn buf = Inr out \<Longrightarrow> \<exists>s. out = buf @ s"
proof (induction dyn arbitrary: buf)
  case Nil
  then show ?case by simp
next
  case (Cons d ds)
  then obtain b where b: "EncodeABI d (padint (of_nat (Len d)) buf) = Inr b"
    and rest: "dyn_loop ds b = Inr out"
    by (auto split: sum.splits)
  from Cons.IH [OF rest] EncodeABI_append [OF b] show ?case by (auto simp: padint_def)
qed

lemma selector_eq: "copy (replicate 4 0) (take 4 (Rep_hash h)) = take 4 (Rep_hash h)"
  by (simp add: copy_def)

lemma ABIEncode_selector:
  assumes "ABIEncode HashString fn args = Inr out"
  shows "take 4 out = take 4 (Rep_hash (HashString fn))"
proof -
  let ?buf = "copy (replicate 4 0) (take 4 (Rep_hash (HashString fn)))"
  from assms obtain buf' dyn where
    st: "static_loop args ?buf [] (of_nat (length args) * 32) = Inr (buf', dyn)"
    and dl: "dyn_loop dyn buf' = Inr out"
    by (auto simp: ABIEncode_def Let_def split: sum.splits prod.splits)
  from static_loop_append [OF st] dyn_loop_append [OF dl]
  obtain s where "out = ?buf @ s" by auto
  then show ?thesis by (simp add: selector_eq)
qed

lemma ABIEncode_no_args:
  "typecheck fn [] = Inr () \<Longrightarrow> ABIEncode HashString fn [] = Inr (take 4 (Rep_hash (HashString fn)))"
  by (simp add: ABIEncode_def selector_eq)

subsection \<open>Overflow\<close>

lemma length_nat_bytes_le: "length (nat_bytes n) \<le> k \<longleftrightarrow> n < 256 ^ k"
proof (induction n arbitrary: k rule: nat_bytes.induct)
  case (1 n)
  show ?case
  proof (cases "n = 0")
    case True
    then show ?thesis by (simp add: nat_bytes.simps)
  next
    case False
    then have len: "length (nat_bytes n) = Suc (length (nat_bytes (n div 256)))"
      by (subst nat_bytes.simps) simp
    show ?thesis
    proof (cases k)
      case 0
      with False len show ?thesis by simp
    next
      case (Suc j)
      from 1 [OF False, of j] have "length (nat_bytes (n div 256)) \<le> j \<longleftrightarrow> n div 256 < 256 ^ j" .
      moreover have "n div 256 < 256 ^ j \<longleftrightarrow> n < 256 ^ Suc j"
        by (simp add: less_mult_imp_div_less div_less_iff_less_mult mult.commute)
      ultimately show ?thesis using len Suc by simp
    qed
  qed
qed

lemma length_Bytes_gt: "32 < length (Bytes i) \<longleftrightarrow> 2 ^ 256 \<le> \<bar>i\<bar>"
proof -
  have a: "length (Bytes i) \<le> 32 \<longleftrightarrow> nat \<bar>i\<bar> < 256 ^ 32"
    unfolding Bytes_def by (rule length_nat_bytes_le)
  have b: "nat \<bar>i\<bar> < 256 ^ 32 \<longleftrightarrow> \<bar>i\<bar> < 2 ^ 256"
    by (simp add: nat_less_iff)
  have "32 < length (Bytes i) \<longleftrightarrow> \<not> length (Bytes i) \<le> 32"
    by (simp add: not_le)
  also have "\<dots> \<longleftrightarrow> \<not> \<bar>i\<bar> < 2 ^ 256"
    by (simp only: a b)
  also have "\<dots> \<longleftrightarrow> 2 ^ 256 \<le> \<bar>i\<bar>"
    by (simp only: not_less)
  finally show ?thesis .
qed

text \<open>An argument that does not fit its word, or a slice with such an element.\<close>

lemma Int_EncodeABI_overflow: "2 ^ 256 \<le> \<bar>i\<bar> \<Longrightarrow> Int_EncodeABI i v = Inl IntegerOverflow"
  by (simp add: Int_EncodeABI_def Let_def length_Bytes_gt)

lemma Int_EncodeABI_Inl: "Int_EncodeABI i v = Inl e \<Longrightarrow> e = IntegerOverflow"
  by (auto simp: Int_EncodeABI_def Let_def split: if_splits)

lemma Data_EncodeABI_overflow: "32 < length d \<Longrightarrow> Data_EncodeABI d v = Inl DataTooLong"
  by (simp add: Data_EncodeABI_def)

lemma IntSlice_EncodeABI_overflow:
  "\<exists>x \<in> set xs. 2 ^ 256 \<le> \<bar>x\<bar> \<Longrightarrow> IntSlice_EncodeABI xs v = Inl IntegerOverflow"
proof (induction xs arbitrary: v)
  case Nil
  then show ?case by simp
next
  case (Cons x xs)
  show ?case
  proof (cases "Int_EncodeABI x v")
    case (Inl e)
    then show ?thesis by (simp add: Int_EncodeABI_Inl)
  next
    case (Inr v')
    then have "\<not> 2 ^ 256 \<le> \<bar>x\<bar>" by (auto simp: Int_EncodeABI_overflow)
    with Cons.prems have "\<exists>y \<in> set xs. 2 ^ 256 \<le> \<bar>y\<bar>" by auto
    from Cons.IH [OF this] Inr show ?thesis by simp
  qed
qed

lemma IntSlice_EncodeABI_Inl: "IntSlice_EncodeABI xs v = Inl e \<Longrightarrow> e = IntegerOverflow"
  by (induction xs arbitrary: v) (auto split: sum.splits dest: Int_EncodeABI_Inl)

lemma EncodeABI_Inl: "EncodeABI a v = Inl e \<Longrightarrow> kind_of e = EncodingOverflow"
  by (cases a)
     (auto simp: Data_EncodeABI_def split: if_splits
           dest: Int_EncodeABI_Inl IntSlice_EncodeABI_Inl)

lemma static_loop_Inl:
  "static_loop args buf dyn dynoff = Inl e \<Longrightarrow> kind_of e = EncodingOverflow"
  by (induction args arbitrary: buf dyn dynoff)
     (auto split: if_splits sum.splits dest: EncodeABI_Inl)

lemma dyn_loop_Inl: "dyn_loop dyn buf = Inl e \<Longrightarrow> kind_of e = EncodingOverflow"
  by (induction dyn arbitrary: buf) (auto split: sum.splits dest: EncodeABI_Inl)

lemma static_loop_scalar_fails:
  "a \<in> set args \<Longrightarrow> \<not> is_EtherSlice a \<Longrightarrow> \<forall>v. \<exists>e. EncodeABI a v = Inl e \<Longrightarrow>
   \<exists>e. static_loop args buf dyn dynoff = Inl e"
proof (induction args arbitrary: buf dyn dynoff)
  case Nil
  then show ?case by simp
next
  case (Cons b bs)
  show ?case
  proof (cases "b = a")
    case True
    from Cons.prems(3) obtain e where "EncodeABI a buf = Inl e" by blast
    with True Cons.prems(2) show ?thesis by simp
  next
    case False
    with Cons.prems(1) have "a \<in> set bs" by simp
    from Cons.IH [OF this Cons.prems(2,3)]
    show ?thesis by (auto split: sum.splits)
  qed
qed

lemma dyn_loop_fails:
  "d \<in> set dyn \<Longrightarrow> \<forall>v. \<exists>e. EncodeABI d v = Inl e \<Longrightarrow> \<exists>e. dyn_loop dyn buf = Inl e"
proof (induction dyn arbitrary: buf)
  case Nil
  then show ?case by simp
next
  case (Cons b bs)
  show ?case
  proof (cases "b = d")
    case True
    from Cons.prems(2) obtain e where "EncodeABI d (padint (of_nat (Len d)) buf) = Inl e" by blast
    with True show ?thesis by simp
  next
    case False
    with Cons.prems(1) have "d \<in> set bs" by simp
    from Cons.IH [OF this Cons.prems(2)]
    show ?thesis by (auto split: sum.splits)
  qed
qed

lemma ABIEncode_fails:
  assumes ok: "typecheck fn args = Inr ()"
    and mem: "a \<in> set args"
    and bad: "\<forall>v. \<exists>e. EncodeABI a v = Inl e"
  shows "\<exists>e. ABIEncode HashString fn args = Inl e \<and> kind_of e = EncodingOverflow"
proof -
  let ?buf = "copy (replicate 4 0) (take 4 (Rep_hash (HashString fn)))"
  let ?off = "of_nat (length args) * 32 :: 64 word"
  show ?thesis
  proof (cases "static_loop args ?buf [] ?off")
    case (Inl e)
    with ok static_loop_Inl [OF Inl] show ?thesis by (simp add: ABIEncode_def Let_def)
  next
    case (Inr r)
    obtain buf' dyn where r: "r = (buf', dyn)" by (cases r)
    from Inr r static_loop_Inr [of args ?buf "[]" ?off buf' dyn]
    have dyn: "dyn = filter is_EtherSlice args" by simp
    have sl: "is_EtherSlice a"
    proof (rule ccontr)
      assume "\<not> is_EtherSlice a"
      from static_loop_scalar_fails [OF mem this bad, of ?buf "[]" ?off] Inr
      show False by simp
    qed
    with mem dyn have "a \<in> set dyn" by simp
    from dyn_loop_fails [OF this bad, of buf'] obtain e where e: "dyn_loop dyn buf' = Inl e" ..
    with ok Inr r dyn_loop_Inl [OF e] show ?thesis by (simp add: ABIEncode_def Let_def)
  qed
qed

lemma ABIEncode_typecheck_first:
  "typecheck fn args = Inl e \<Longrightarrow> ABIEncode HashString fn args = Inl e"
  by (simp add: ABIEncode_def)

subsection \<open>The signature check\<close>

lemma IndexByte_ge: "- 1 \<le> IndexByte s c"
  by (induction s) (auto simp: Let_def)

lemma IndexByte_none: "IndexByte s c = - 1 \<longleftrightarrow> c \<notin> set s"
proof (induction s)
  case Nil
  then show ?case by simp
next
  case (Cons x xs)
  from IndexByte_ge [of xs c] have "IndexByte xs c + 1 \<noteq> - 1" by simp
  with Cons show ?case by (auto simp: Let_def)
qed

lemma IndexByte_last:
  "s \<noteq> [] \<Longrightarrow>
   IndexByte s c = int (length s) - 1 \<longleftrightarrow> last s = c \<and> c \<notin> set (butlast s)"
proof (induction s)
  case Nil
  then show ?case by simp
next
  case (Cons x xs)
  show ?case
  proof (cases "xs = []")
    case True
    then show ?thesis by auto
  next
    case False
    then have pos: "0 < int (length xs)" by simp
    show ?thesis
    proof (cases "x = c")
      case True
      with False pos show ?thesis by simp
    next
      case neq: False
      show ?thesis
      proof (cases "IndexByte xs c = - 1")
        case True
        with neq False pos Cons show ?thesis by (auto simp: Let_def)
      next
        case nf: False
        with neq False Cons show ?thesis by (auto simp: Let_def)
      qed
    qed
  qed
qed

lemma check_loop_Inl:
  "check_loop ts args i = Inl e \<Longrightarrow> kind_of e = TypeMismatch \<or> kind_of e = RuntimePanic"
proof (induction ts arbitrary: i)
  case Nil
  then show ?case by simp
next
  case (Cons t ts)
  then show ?case
    by (auto simp: check_arg_def split: if_splits sum.splits EtherType.splits)
qed

lemma typecheck_malformed_iff:
  "(\<exists>e. typecheck f args = Inl e \<and> kind_of e = MalformedSignature) \<longleftrightarrow>
   (ContainsAny f illegal \<or> CHR ''('' \<notin> set f \<or> f = [] \<or> last f \<noteq> CHR '')''
    \<or> CHR '')'' \<in> set (butlast f))"
proof (cases "ContainsAny f illegal")
  case True
  then show ?thesis by (simp add: typecheck_def)
next
  case legal: False
  show ?thesis
  proof (cases "CHR ''('' \<in> set f")
    case False
    with legal show ?thesis by (simp add: typecheck_def IndexByte_none)
  next
    case lp: True
    then have lp': "IndexByte f (CHR ''('') \<noteq> - 1" by (simp add: IndexByte_none)
    from lp have ne: "f \<noteq> []" by auto
    show ?thesis
    proof (cases "IndexByte f (CHR '')'') = int (length f) - 1")
      case False
      with legal lp' have "typecheck f args = Inl BadRightParen"
        by (simp add: typecheck_def Let_def)
      moreover from False ne have "last f \<noteq> CHR '')'' \<or> CHR '')'' \<in> set (butlast f)"
        by (simp add: IndexByte_last)
      ultimately show ?thesis by auto
    next
      case True
      with ne have good: "f \<noteq> [] \<and> last f = CHR '')'' \<and> CHR '')'' \<notin> set (butlast f)"
        by (simp add: IndexByte_last)
      have "\<not> (\<exists>e. typecheck f args = Inl e \<and> kind_of e = MalformedSignature)"
      proof
        assume "\<exists>e. typecheck f args = Inl e \<and> kind_of e = MalformedSignature"
        then obtain e where e: "typecheck f args = Inl e" and k: "kind_of e = MalformedSignature"
          by blast
        from e legal lp' True
        have "(\<exists>n m. e = MismatchedArgumentLists n m) \<or> (\<exists>ts. check_loop ts args 0 = Inl e)"
          by (auto simp: typecheck_def Let_def split: if_splits)
        with k show False by (auto dest: check_loop_Inl)
      qed
      with legal lp good show ?thesis by simp
    qed
  qed
qed

lemma typecheck_no_comma:
  "\<not> ContainsAny f illegal \<Longrightarrow> IndexByte f (CHR ''('') \<noteq> - 1 \<Longrightarrow>
   IndexByte f (CHR '')'') = int (length f) - 1 \<Longrightarrow>
   \<not> Contains (substr f (IndexByte f (CHR ''('') + 1) (IndexByte f (CHR '')''))) (CHR '','') \<Longrightarrow>
   typecheck f args = Inr ()"
  by (simp add: typecheck_def Let_def)

subsection \<open>Evaluation on concrete inputs\<close>

lemma nat_bytes_0 [simp]: "nat_bytes 0 = []"
  by (subst nat_bytes.simps) simp

lemma nat_bytes_numeral [simp]:
  "nat_bytes (numeral k) = nat_bytes (numeral k div 256) @ [of_nat (numeral k mod 256)]"
  by (subst nat_bytes.simps) simp

lemma nat_bytes_1 [simp]: "nat_bytes (Suc 0) = [1]"
  by (subst nat_bytes.simps) simp

lemma ABIEncode_ok:
  "typecheck fn args = Inr () \<Longrightarrow>
   ABIEncode HashString fn args =
     (case static_loop args (take 4 (Rep_hash (HashString fn))) [] (of_nat (length args) * 32) of
        Inl e \<Rightarrow> Inl e
      | Inr (buf, dyn) \<Rightarrow> dyn_loop dyn buf)"
  by (simp add: ABIEncode_def selector_eq)

lemma replicate_numeral: "replicate (numeral k) x = x # replicate (pred_numeral k) x"
  by (simp add: numeral_eq_Suc)

lemmas typecheck_eval =
  typecheck_def ContainsAny_def illegal_def substr_def Contains_def check_arg_def
  HasSuffix_def Let_def

lemmas encode_eval =
  ABIEncode_ok padint_def zero_word_def PutUint64_def Int_EncodeABI_def
  Data_EncodeABI_def Address_EncodeABI_eq Bytes_def copy_at_def copy_def Let_def
  be_word_def replicate_numeral

subsection \<open>The value of an encoded integer\<close>

lemma be_value_snoc: "be_value (bs @ [b]) = 256 * be_value bs + unat b"
  by (simp add: be_value_def)

lemma be_value_zeros: "be_value (replicate k 0 @ bs) = be_value bs"
proof -
  have "foldl (\<lambda>acc b. 256 * acc + unat b) 0 (replicate k (0 :: byte)) = 0"
    by (induction k) simp_all
  then show ?thesis by (simp add: be_value_def)
qed

lemma unat_byte_mod: "unat (of_nat (n mod 256) :: byte) = n mod 256"
  by (simp add: unat_of_nat)

lemma be_value_nat_bytes: "be_value (nat_bytes n) = n"
proof (induction n rule: nat_bytes.induct)
  case (1 n)
  show ?case
  proof (cases "n = 0")
    case True
    then show ?thesis by (simp add: be_value_def)
  next
    case False
    then have "nat_bytes n = nat_bytes (n div 256) @ [of_nat (n mod 256)]"
      by (subst nat_bytes.simps) simp
    with 1 [OF False] show ?thesis
      by (simp add: be_value_snoc unat_byte_mod)
  qed
qed

lemma Int_EncodeABI_value:
  assumes "Int_EncodeABI i v = Inr out"
  shows "be_value (drop (length v) out) = nat \<bar>i\<bar>"
proof -
  from Int_EncodeABI_Inr [OF assms]
  have "drop (length v) out = replicate (32 - length (Bytes i)) 0 @ Bytes i" by simp
  then show ?thesis by (simp add: be_value_zeros Bytes_def be_value_nat_bytes)
qed

subsection \<open>The decimal rendering of a block number\<close>

lemma digits_nth:
  assumes "d < 10"
  shows "is_digit (digits ! d)" and "of_char (digits ! d) - 48 = d"
    and "0 < d \<Longrightarrow> digits ! d \<noteq> CHR ''0''"
proof -
  from assms have "d = 0 \<or> d = 1 \<or> d = 2 \<or> d = 3 \<or> d = 4 \<or> d = 5 \<or> d = 6 \<or> d = 7
    \<or> d = 8 \<or> d = 9" by arith
  then show "is_digit (digits ! d)" and "of_char (digits ! d) - 48 = d"
    and "0 < d \<Longrightarrow> digits ! d \<noteq> CHR ''0''"
    by (auto simp: digits_def is_digit_def)
qed

lemma dec_digits_nonempty: "dec_digits n \<noteq> []"
  by (subst dec_digits.simps) simp

lemma dec_digits_all: "list_all is_digit (dec_digits n)"
proof (induction n rule: dec_digits.induct)
  case (1 n)
  show ?case
  proof (cases "n < 10")
    case True
    then show ?thesis by (subst dec_digits.simps) (simp add: digits_nth)
  next
    case False
    with 1 show ?thesis by (subst dec_digits.simps) (simp add: digits_nth)
  qed
qed

lemma dec_digits_leading: "0 < n \<Longrightarrow> dec_digits n ! 0 \<noteq> CHR ''0''"
proof (induction n rule: dec_digits.induct)
  case (1 n)
  show ?case
  proof (cases "n < 10")
    case True
    with "1.prems" show ?thesis by (subst dec_digits.simps) (simp add: digits_nth)
  next
    case False
    then have "0 < n div 10" by simp
    with 1 False have "dec_digits (n div 10) ! 0 \<noteq> CHR ''0''" by simp
    with False dec_digits_nonempty [of "n div 10"] show ?thesis
      by (subst dec_digits.simps) (simp add: nth_append)
  qed
qed

lemma dec_value_snoc: "dec_value (s @ [c]) = 10 * dec_value s + (of_char c - 48)"
  by (simp add: dec_value_def)

lemma dec_value_dec_digits: "dec_value (dec_digits n) = n"
proof (induction n rule: dec_digits.induct)
  case (1 n)
  show ?case
  proof (cases "n < 10")
    case True
    then show ?thesis by (subst dec_digits.simps) (simp add: dec_value_def digits_nth)
  next
    case False
    with 1 show ?thesis by (subst dec_digits.simps) (simp add: dec_value_snoc digits_nth)
  qed
qed

lemma json_digits_dec_digits: "json_digits (dec_digits n)"
proof (cases "n = 0")
  case True
  then show ?thesis
    by (simp add: json_digits_def dec_digits.simps [of 0] digits_def is_digit_def)
next
  case False
  then show ?thesis
    by (simp add: json_digits_def dec_digits_nonempty dec_digits_all dec_digits_leading)
qed

lemma dec_digits_not_minus: "dec_digits n = c # cs \<Longrightarrow> c \<noteq> CHR ''-''"
proof
  assume eq: "dec_digits n = c # cs" and "c = CHR ''-''"
  from dec_digits_all [of n] eq have "is_digit c" by simp
  with \<open>c = CHR ''-''\<close> show False by (simp add: is_digit_def)
qed

lemma json_number_Marshal_int64: "json_number (Marshal_int64 v)"
proof (cases "sint v < 0")
  case True
  then show ?thesis by (simp add: Marshal_int64_def json_number_def json_digits_dec_digits)
next
  case False
  obtain c cs where eq: "dec_digits (nat (sint v)) = c # cs"
    using dec_digits_nonempty [of "nat (sint v)"] by (cases "dec_digits (nat (sint v))") auto
  from dec_digits_not_minus [OF eq] False eq json_digits_dec_digits [of "nat (sint v)"]
  show ?thesis by (simp add: Marshal_int64_def json_number_def)
qed

lemma json_value_Marshal_int64: "json_value (Marshal_int64 v) = sint v"
proof (cases "sint v < 0")
  case True
  then show ?thesis by (simp add: Marshal_int64_def json_value_def dec_value_dec_digits)
next
  case False
  obtain c cs where eq: "dec_digits (nat (sint v)) = c # cs"
    using dec_digits_nonempty [of "nat (sint v)"] by (cases "dec_digits (nat (sint v))") auto
  from dec_digits_not_minus [OF eq] False eq dec_value_dec_digits [of "nat (sint v)"]
  show ?thesis by (simp add: Marshal_int64_def json_value_def)
qed

lemma raw_not_number: "\<not> json_number rawpending" "\<not> json_number rawlatest"
  by (simp_all add: json_number_def json_digits_def rawpending_def rawlatest_def is_digit_def)

lemma overflows_EncodeABI:
  assumes "overflows a"
  shows "\<exists>e. EncodeABI a v = Inl e"
proof (cases a)
  case (Address x)
  with assms show ?thesis by simp
next
  case (IntVal i)
  with assms have "2 ^ 256 \<le> \<bar>i\<bar>" by (simp only: overflows.simps)
  with IntVal show ?thesis by (simp only: EncodeABI.simps Int_EncodeABI_overflow) blast
next
  case (Data d)
  with assms show ?thesis by (simp add: Data_EncodeABI_overflow)
next
  case (IntSlice xs)
  with assms have "\<exists>x \<in> set xs. 2 ^ 256 \<le> \<bar>x\<bar>"
    by (simp only: overflows.simps list_ex_iff)
  from IntSlice_EncodeABI_overflow [OF this] IntSlice show ?thesis
    by (simp only: EncodeABI.simps) blast
next
  case (AddrSlice as)
  with assms show ?thesis by simp
qed

lemma ABIEncode_overflows:
  assumes "a \<in> set args" and "overflows a"
  shows "\<exists>e. ABIEncode HashString fn args = Inl e"
    and "typecheck fn args = Inr () \<Longrightarrow>
         \<exists>e. ABIEncode HashString fn args = Inl e \<and> kind_of e = EncodingOverflow"
proof -
  from assms(2) have bad: "\<forall>v. \<exists>e. EncodeABI a v = Inl e"
    by (simp add: overflows_EncodeABI)
  show "typecheck fn args = Inr () \<Longrightarrow>
        \<exists>e. ABIEncode HashString fn args = Inl e \<and> kind_of e = EncodingOverflow"
    by (rule ABIEncode_fails [OF _ assms(1) bad])
  show "\<exists>e. ABIEncode HashString fn args = Inl e"
  proof (cases "typecheck fn args")
    case (Inl e)
    then show ?thesis by (auto simp: ABIEncode_typecheck_first)
  next
    case (Inr u)
    then have "typecheck fn args = Inr ()" by simp
    from ABIEncode_fails [OF this assms(1) bad] show ?thesis by blast
  qed
qed

lemma Rep_address_ones: "Rep_address (Abs_address (replicate 20 1)) = replicate 20 1"
  by (simp add: Abs_address_inverse)

lemma Rep_hash_zeros: "Rep_hash (Abs_hash (replicate 32 0)) = replicate 32 0"
  by (simp add: Abs_hash_inverse)

subsection \<open>One static and one dynamic argument\<close>

text \<open>
  With one slice the offset is right: a \<^verbatim>\<open>uint256\<close> and an \<^verbatim>\<open>address[]\<close> of length 2
  give a static area of two words, the second of which holds 64.
\<close>

lemma ABIEncode_uint_addresses:
  assumes "\<bar>n\<bar> < 2 ^ 256"
  shows "ABIEncode HashString ''f(uint256,address[])'' [IntVal n, AddrSlice [a, b]] =
     Inr (take 4 (Rep_hash (HashString ''f(uint256,address[])''))
          @ be_word (nat \<bar>n\<bar>) @ be_word 64
          @ be_word 2 @ (replicate 12 0 @ Rep_address a) @ (replicate 12 0 @ Rep_address b))"
proof -
  have tc: "typecheck ''f(uint256,address[])'' [IntVal n, AddrSlice [a, b]] = Inr ()"
    by (simp add: typecheck_eval)
  from assms have "\<not> 32 < length (Bytes n)" by (simp add: length_Bytes_gt)
  then have "Int_EncodeABI n v = Inr (v @ be_word (nat \<bar>n\<bar>))" for v
    by (simp add: Int_EncodeABI_eq be_word_def Bytes_def)
  moreover have "padint 64 v = v @ be_word 64" "padint 2 v = v @ be_word 2" for v
    by (simp_all add: padint_def zero_word_def PutUint64_def be_word_def replicate_numeral)
  ultimately show ?thesis
    by (simp add: ABIEncode_ok [OF tc] Address_EncodeABI_eq)
qed

subsection \<open>Parsing a string of digits\<close>

lemma ParseUint_step:
  fixes n :: "64 word"
  assumes bound: "unat n * b + d < 2 ^ 64" and b: "2 \<le> b" "b \<le> 36"
  shows "\<not> n \<ge> (- 1) div of_nat b + 1"
    and "unat (n * of_nat b + of_nat d) = unat n * b + d"
    and "\<not> n * of_nat b + of_nat d < n * of_nat b"
    and "\<not> n * of_nat b + of_nat d > - 1"
proof -
  have ub: "unat (of_nat b :: 64 word) = b"
    using b by (simp add: unat_of_nat)
  have ud: "unat (of_nat d :: 64 word) = d"
    using bound by (simp add: unat_of_nat)
  have mul: "unat (n * of_nat b) = unat n * b"
    using bound ub by (simp add: unat_mult_lem [THEN iffD1])
  then show sum: "unat (n * of_nat b + of_nat d) = unat n * b + d"
    using bound ud by (simp add: unat_add_lem [THEN iffD1])
  from sum mul show "\<not> n * of_nat b + of_nat d < n * of_nat b"
    by (simp add: word_less_nat_alt)
  show "\<not> n * of_nat b + of_nat d > - 1"
    by (simp add: word_less_nat_alt not_less word_le_nat_alt [symmetric])
  have um: "unat (- 1 :: 64 word) = 2 ^ 64 - 1"
    by (simp add: unsigned_minus_1_eq_mask mask_eq_exp_minus_1)
  have "unat ((- 1 :: 64 word) div of_nat b) = (2 ^ 64 - 1) div b"
    by (simp only: unat_div ub um)
  moreover have "(2 ^ 64 - 1) div b < (2 ^ 64 - 1 :: nat)"
    using b by (intro div_less_dividend) simp_all
  ultimately have cut: "unat ((- 1 :: 64 word) div of_nat b + 1) = (2 ^ 64 - 1) div b + 1"
    by (simp add: unat_add_lem [THEN iffD1])
  from bound have "unat n * b \<le> 2 ^ 64 - 1" by simp
  then have "unat n \<le> (2 ^ 64 - 1) div b"
    using b by (simp add: less_eq_div_iff_mult_less_eq)
  with cut show "\<not> n \<ge> (- 1) div of_nat b + 1"
    by (simp add: word_le_nat_alt)
qed

lemma foldl_digits_ge:
  "1 \<le> b \<Longrightarrow> a \<le> foldl (\<lambda>acc c. b * acc + dv c) a cs" for a b :: nat
proof (induction cs arbitrary: a)
  case Nil
  then show ?case by simp
next
  case (Cons c cs)
  from Cons.prems have "a \<le> b * a + dv c"
    by (metis le_add1 mult.commute mult_le_mono2 nat_mult_1_right order_trans)
  also from Cons.IH [OF Cons.prems] have "\<dots> \<le> foldl (\<lambda>acc c. b * acc + dv c) (b * a + dv c) cs" .
  finally show ?case by simp
qed

lemma digit_val_underscore: "digit_val (CHR ''_'') = None"
  by (simp add: digit_val_def lower_def)

lemma ParseUint_loop_digits:
  assumes b: "2 \<le> b" "b \<le> 36"
    and ds: "\<forall>c \<in> set cs. digit_val c = Some (dv c) \<and> dv c < b"
    and bound: "foldl (\<lambda>acc c. b * acc + dv c) (unat n) cs < 2 ^ 64"
  shows "ParseUint_loop cs base0 b ((- 1) div of_nat b + 1) (- 1) us n =
           Inr (of_nat (foldl (\<lambda>acc c. b * acc + dv c) (unat n) cs), us)"
  using ds bound
proof (induction cs arbitrary: n)
  case Nil
  then show ?case by simp
next
  case (Cons c cs)
  let ?n1 = "n * of_nat b + of_nat (dv c) :: 64 word"
  from Cons.prems(1) have dc: "digit_val c = Some (dv c)" and lt: "dv c < b" by simp_all
  from dc have nu: "c \<noteq> CHR ''_''" using digit_val_underscore by auto
  from b have "1 \<le> b" by simp
  from foldl_digits_ge [OF this, of "b * unat n + dv c" dv cs] Cons.prems(2)
  have "unat n * b + dv c < 2 ^ 64" by (simp add: mult.commute)
  note step = ParseUint_step [OF this b]
  from step(2) Cons.prems(2)
  have "foldl (\<lambda>acc c. b * acc + dv c) (unat ?n1) cs < 2 ^ 64" by (simp add: mult.commute)
  with Cons.prems(1)
  have "ParseUint_loop cs base0 b ((- 1) div of_nat b + 1) (- 1) us ?n1 =
          Inr (of_nat (foldl (\<lambda>acc c. b * acc + dv c) (unat ?n1) cs), us)"
    by (intro Cons.IH) simp_all
  with step dc lt nu show ?case
    by (simp add: Let_def mult.commute not_le)
qed

text \<open>A string of digits in the base that its prefix announces parses to its value.\<close>

lemma ParseInt_digits:
  assumes ne: "s \<noteq> []" and sign: "s ! 0 \<noteq> CHR ''+''" "s ! 0 \<noteq> CHR ''-''"
    and pre: "base_prefix s 0 = Some (b, cs)"
    and b: "2 \<le> b" "b \<le> 36"
    and ds: "\<forall>c \<in> set cs. digit_val c = Some (dv c) \<and> dv c < b"
    and bound: "foldl (\<lambda>acc c. b * acc + dv c) 0 cs < 2 ^ 63"
  shows "ParseInt s 0 64 = (of_nat (foldl (\<lambda>acc c. b * acc + dv c) 0 cs), None)"
proof -
  let ?v = "foldl (\<lambda>acc c. b * acc + dv c) 0 cs"
  from bound have "foldl (\<lambda>acc c. b * acc + dv c) (unat (0 :: 64 word)) cs < 2 ^ 64" by simp
  from ParseUint_loop_digits [OF b ds this, of True False]
  have loop: "ParseUint_loop cs True b ((- 1) div of_nat b + 1) (- 1) False 0 = Inr (of_nat ?v, False)"
    by simp
  have mv: "push_bit (nat 64) (1 :: 64 word) - 1 = - 1" by simp
  from ne pre loop have pu: "ParseUint s 0 64 = (of_nat ?v, None)"
    by (simp add: ParseUint_def Let_def mv del: push_bit_of_1)
  from bound have un: "unat (of_nat ?v :: 64 word) = ?v" by (simp add: unat_of_nat)
  have "unat (push_bit 63 (1 :: 64 word)) = 2 ^ 63" by simp
  with un bound have small: "\<not> of_nat ?v \<ge> push_bit 63 (1 :: 64 word)"
    by (simp only: word_le_nat_alt not_le)
  have n63: "nat (64 - 1) = 63" by simp
  from ne sign pu small show ?thesis
    by (simp add: ParseInt_def Let_def n63 del: push_bit_of_1)
qed

lemma is_digit_digit_val:
  "is_digit c \<Longrightarrow> digit_val c = Some (of_char c - 48) \<and> of_char c - 48 < (10 :: nat)"
  by (auto simp: is_digit_def digit_val_def Let_def)

lemma is_hex_digit_val:
  assumes "is_hex c"
  shows "digit_val c = Some (hex_digit c) \<and> hex_digit c < 16"
proof -
  let ?n = "of_char c :: nat"
  from assms consider "48 \<le> ?n \<and> ?n \<le> 57" | "97 \<le> ?n \<and> ?n \<le> 102" | "65 \<le> ?n \<and> ?n \<le> 70"
    by (auto simp: is_hex_def Let_def)
  then show ?thesis
  proof cases
    case 1
    then show ?thesis by (auto simp: digit_val_def hex_digit_def Let_def)
  next
    case 2
    then have "?n div 32 = 3" by arith
    with 2 show ?thesis by (auto simp: digit_val_def hex_digit_def lower_def Let_def)
  next
    case 3
    then have "?n div 32 = 2" by arith
    with 3 show ?thesis by (auto simp: digit_val_def hex_digit_def lower_def Let_def)
  qed
qed

lemma blocknum_decimal:
  assumes ne: "ds \<noteq> []" and dig: "list_all is_digit ds" and lead: "ds ! 0 \<noteq> CHR ''0''"
    and bound: "dec_value ds < 2 ^ 63"
  shows "blocknum ds = Inr (of_nat (dec_value ds))"
proof -
  from ne dig have d0: "is_digit (ds ! 0)" by (cases ds) simp_all
  then have sign: "ds ! 0 \<noteq> CHR ''+''" "ds ! 0 \<noteq> CHR ''-''"
    by (auto simp: is_digit_def)
  from lead have pre: "base_prefix ds 0 = Some (10, ds)" by (simp add: base_prefix_def)
  from dig have all: "\<forall>c \<in> set ds. digit_val c = Some (of_char c - 48) \<and> of_char c - 48 < (10 :: nat)"
    by (simp add: list_all_iff is_digit_digit_val)
  from bound have "foldl (\<lambda>acc c. 10 * acc + (of_char c - 48)) 0 ds < (2 ^ 63 :: nat)"
    by (simp add: dec_value_def)
  from ParseInt_digits [OF ne sign pre _ _ all this]
  have pi: "ParseInt ds 0 64 = (of_nat (dec_value ds), None)" by (simp add: dec_value_def)
  have tok: "ds \<noteq> ''earliest''" "ds \<noteq> ''latest''" "ds \<noteq> ''pending''"
    using d0 by (auto simp: is_digit_def)
  with pi show ?thesis by (simp add: blocknum_def)
qed

lemma blocknum_hex:
  assumes ne: "hs \<noteq> []" and dig: "list_all is_hex hs" and bound: "hex_value hs < 2 ^ 63"
  shows "blocknum (''0x'' @ hs) = Inr (of_nat (hex_value hs))"
proof -
  let ?s = "''0x'' @ hs"
  have sne: "?s \<noteq> []" and sign: "?s ! 0 \<noteq> CHR ''+''" "?s ! 0 \<noteq> CHR ''-''" by simp_all
  from ne have "3 \<le> length ?s" by (cases hs) simp_all
  then have pre: "base_prefix ?s 0 = Some (16, hs)"
    by (simp add: base_prefix_def lower_def)
  from dig have all: "\<forall>c \<in> set hs. digit_val c = Some (hex_digit c) \<and> hex_digit c < 16"
    by (simp add: list_all_iff is_hex_digit_val)
  from bound have "foldl (\<lambda>acc c. 16 * acc + hex_digit c) 0 hs < (2 ^ 63 :: nat)"
    by (simp add: hex_value_def)
  from ParseInt_digits [OF sne sign pre _ _ all this]
  have pi: "ParseInt ?s 0 64 = (of_nat (hex_value hs), None)" by (simp add: hex_value_def)
  have tok: "?s \<noteq> ''earliest''" "?s \<noteq> ''latest''" "?s \<noteq> ''pending''" by simp_all
  with pi show ?thesis by (simp add: blocknum_def)
qed

lemmas parse_eval =
  blocknum_def ParseInt_def ParseUint_def base_prefix_def digit_val_def lower_def
  underscoreOK_def has_base_prefix_def Let_def Latest_def Pending_def
  word_le_nat_alt word_less_nat_alt

text \<open>A token that starts with a letter is no number.\<close>

lemma is_letter_digit_val:
  assumes "is_letter c"
  shows "\<exists>d. digit_val c = Some d \<and> 10 \<le> d"
proof -
  let ?n = "of_char c :: nat"
  from assms consider "65 \<le> ?n \<and> ?n \<le> 90" | "97 \<le> ?n \<and> ?n \<le> 122"
    by (auto simp: is_letter_def Let_def)
  then show ?thesis
  proof cases
    case 1
    then have "?n div 32 = 2" by arith
    with 1 show ?thesis by (auto simp: digit_val_def lower_def Let_def)
  next
    case 2
    then have "?n div 32 = 3" by arith
    with 2 show ?thesis by (auto simp: digit_val_def lower_def Let_def)
  qed
qed

lemma ParseInt_letter_first:
  assumes "is_letter c"
  shows "ParseInt (c # cs) 0 64 = (0, Some ErrSyntax)"
proof -
  from is_letter_digit_val [OF assms] obtain d where d: "digit_val c = Some d" "10 \<le> d" by blast
  from assms have ne: "c \<noteq> CHR ''+''" "c \<noteq> CHR ''-''" "c \<noteq> CHR ''0''" "c \<noteq> CHR ''_''"
    by (auto simp: is_letter_def)
  from ne have pre: "base_prefix (c # cs) 0 = Some (10, c # cs)"
    by (simp add: base_prefix_def)
  from d ne have "ParseUint_loop (c # cs) True 10 cutoff maxVal False 0 = Inl (0, ErrSyntax)"
    for cutoff maxVal
    by simp
  with pre have "ParseUint (c # cs) 0 64 = (0, Some ErrSyntax)"
    by (simp add: ParseUint_def Let_def del: ParseUint_loop.simps)
  with ne show ?thesis by (simp add: ParseInt_def)
qed

lemma blocknum_letter_first:
  assumes "is_letter c"
    and "c # cs \<noteq> ''earliest''" "c # cs \<noteq> ''latest''" "c # cs \<noteq> ''pending''"
  shows "blocknum (c # cs) = Inl BadBlockSpecifier"
  using assms(2-4) ParseInt_letter_first [OF assms(1), of cs]
  by (simp only: blocknum_def if_False) simp

lemma blocknum_other:
  "s \<noteq> ''earliest'' \<Longrightarrow> s \<noteq> ''latest'' \<Longrightarrow> s \<noteq> ''pending'' \<Longrightarrow>
   blocknum s = (case ParseInt s 0 64 of
                   (bn, Some err) \<Rightarrow> Inl BadBlockSpecifier
                 | (bn, None) \<Rightarrow> Inr bn)"
  by (simp only: blocknum_def if_False)

section \<open>The claims\<close>

text \<open>
  C1. The offset word of a dynamic argument should hold the distance from the end of the
  selector to the argument's length word. The encoder advances the offset by 32 for each
  slice, whatever its length: for two slices of which the first has the single element 7, the
  second offset word holds 96, where the element 7 lies, while the length word 2 of the
  second slice lies at 128.
\<close>

theorem C1_second_offset_ignores_elements:
  "ABIEncode HashString ''f(uint256[],uint256[])'' [IntSlice [7], IntSlice [8, 9]] =
     Inr (take 4 (Rep_hash (HashString ''f(uint256[],uint256[])''))
          @ be_word 64 @ be_word 96
          @ be_word 1 @ be_word 7
          @ be_word 2 @ be_word 8 @ be_word 9)"
proof -
  have "typecheck ''f(uint256[],uint256[])'' [IntSlice [7], IntSlice [8, 9]] = Inr ()"
    by (simp add: typecheck_eval)
  then show ?thesis by (simp add: encode_eval)
qed

text \<open>
  C2. A call of \<^verbatim>\<open>foo(address,uint256)\<close> with one argument is rejected. A call of
  \<^verbatim>\<open>foo(address)\<close> with an Int is accepted: the parenthesised part has no comma, so the list
  of declared types stays empty and the case for \<^verbatim>\<open>address\<close> is never reached.
\<close>

theorem C2_single_parameter_not_checked:
  "typecheck ''foo(address,uint256)'' [a] = Inl (MismatchedArgumentLists 2 1) \<and>
   typecheck ''foo(address)'' [IntVal 5] = Inr ()"
  by (simp add: typecheck_eval)

text \<open>
  C3, as stated, fails: a signature may hold more than one left parenthesis.
\<close>

theorem C3_two_left_parens_accepted:
  "count_list ''f(()'' (CHR ''('') = 2 \<and> typecheck ''f(()'' [] = Inr ()"
  by (simp add: typecheck_eval)

text \<open>
  C3, amended. \<^verbatim>\<open>typecheck\<close> signals a malformed signature exactly when the signature holds an
  illegal character, or no left parenthesis, or when its first right parenthesis is not its
  last character (which includes that it has none). Further left parentheses are not looked
  at.
\<close>

theorem C3_malformed_signature:
  "(\<exists>e. typecheck f args = Inl e \<and> kind_of e = MalformedSignature) \<longleftrightarrow>
   (ContainsAny f illegal \<or> CHR ''('' \<notin> set f \<or> f = [] \<or> last f \<noteq> CHR '')''
    \<or> CHR '')'' \<in> set (butlast f))"
  by (rule typecheck_malformed_iff)

theorem C3_malformed_signature_witness:
  "CHR '')'' \<in> set (butlast ''f(a)b)'') \<and>
   (\<exists>e. typecheck ''f(a)b)'' [] = Inl e \<and> kind_of e = MalformedSignature)"
  using C3_malformed_signature [of "''f(a)b)''" "[]"] by simp

text \<open>
  C4. An Int whose magnitude needs more than 32 bytes and a Data longer than 32 bytes make
  the encoding panic; \<^verbatim>\<open>ABIEncode\<close> with such an argument, or with an integer slice holding
  such an element, returns no bytes at all. An Int that is encoded keeps its magnitude.
\<close>

theorem C4_overflow_aborts:
  "(2 ^ 256 \<le> \<bar>i\<bar> \<longrightarrow> Int_EncodeABI i v = Inl IntegerOverflow) \<and>
   (32 < length d \<longrightarrow> Data_EncodeABI d v = Inl DataTooLong) \<and>
   kind_of IntegerOverflow = EncodingOverflow \<and> kind_of DataTooLong = EncodingOverflow \<and>
   (a \<in> set args \<and> overflows a \<longrightarrow>
      (\<exists>e. ABIEncode HashString fn args = Inl e) \<and>
      (typecheck fn args = Inr () \<longrightarrow>
         (\<exists>e. ABIEncode HashString fn args = Inl e \<and> kind_of e = EncodingOverflow))) \<and>
   (Int_EncodeABI j w = Inr out \<longrightarrow>
      \<bar>j\<bar> < 2 ^ 256 \<and> length out = length w + 32 \<and> be_value (drop (length w) out) = nat \<bar>j\<bar>)"
proof -
  have p1: "2 ^ 256 \<le> \<bar>i\<bar> \<longrightarrow> Int_EncodeABI i v = Inl IntegerOverflow"
    using Int_EncodeABI_overflow by blast
  have p2: "32 < length d \<longrightarrow> Data_EncodeABI d v = Inl DataTooLong"
    using Data_EncodeABI_overflow by blast
  have p3: "kind_of IntegerOverflow = EncodingOverflow \<and> kind_of DataTooLong = EncodingOverflow"
    by simp
  have p4: "a \<in> set args \<and> overflows a \<longrightarrow>
      (\<exists>e. ABIEncode HashString fn args = Inl e) \<and>
      (typecheck fn args = Inr () \<longrightarrow>
         (\<exists>e. ABIEncode HashString fn args = Inl e \<and> kind_of e = EncodingOverflow))"
    using ABIEncode_overflows [where a = a and args = args and HashString = HashString and fn = fn]
    by blast
  have p5: "Int_EncodeABI j w = Inr out \<longrightarrow>
      \<bar>j\<bar> < 2 ^ 256 \<and> length out = length w + 32 \<and> be_value (drop (length w) out) = nat \<bar>j\<bar>"
  proof
    assume enc: "Int_EncodeABI j w = Inr out"
    have "\<bar>j\<bar> < 2 ^ 256"
    proof (rule ccontr)
      assume "\<not> \<bar>j\<bar> < 2 ^ 256"
      then have "2 ^ 256 \<le> \<bar>j\<bar>" by (simp only: not_less)
      from Int_EncodeABI_overflow [OF this, of w] enc show False by simp
    qed
    with length_Int_EncodeABI [OF enc] Int_EncodeABI_value [OF enc]
    show "\<bar>j\<bar> < 2 ^ 256 \<and> length out = length w + 32 \<and> be_value (drop (length w) out) = nat \<bar>j\<bar>"
      by blast
  qed
  from p1 p2 p3 p4 p5 show ?thesis by blast
qed

theorem C4_overflow_aborts_witness:
  "Int_EncodeABI (2 ^ 256) [] = Inl IntegerOverflow \<and>
   Data_EncodeABI (replicate 33 0) [] = Inl DataTooLong \<and>
   (\<exists>e. ABIEncode (\<lambda>s. Abs_hash (replicate 32 0)) ''f(uint256,uint256)''
          [IntVal 1, IntVal (2 ^ 256)] = Inl e \<and> kind_of e = EncodingOverflow) \<and>
   Int_EncodeABI 1000 [] = Inr (be_word 1000) \<and> be_value (be_word 1000) = 1000"
proof -
  have tc: "typecheck ''f(uint256,uint256)'' [IntVal 1, IntVal (2 ^ 256)] = Inr ()"
    by (simp add: typecheck_eval)
  have enc: "Int_EncodeABI 1000 [] = Inr (be_word 1000)"
    by (simp add: Int_EncodeABI_def Bytes_def copy_at_def copy_def zero_word_def be_word_def)
  have ov: "overflows (IntVal (2 ^ 256))"
    by simp
  from tc enc ov
    C4_overflow_aborts [where i = "2 ^ 256" and v = "[]" and d = "replicate 33 0"
      and a = "IntVal (2 ^ 256)" and args = "[IntVal 1, IntVal (2 ^ 256)]"
      and fn = "''f(uint256,uint256)''" and HashString = "\<lambda>s. Abs_hash (replicate 32 0)"
      and j = 1000 and w = "[]" and out = "be_word 1000"]
  show ?thesis by simp
qed

text \<open>
  C5. The output of \<^verbatim>\<open>ABIEncode\<close> has 4 bytes and one 32-byte word for each argument, and for
  each slice one more word and one word for each of its elements. Each encoding step
  appends whole words.
\<close>

theorem C5_output_length:
  "(ABIEncode HashString fn args = Inr out \<longrightarrow>
      (\<exists>k. length out = 4 + 32 * k \<and>
           k = length args + (\<Sum>s\<leftarrow>filter is_EtherSlice args. 1 + Len s))) \<and>
   length (Address_EncodeABI a v) = length v + 32 \<and>
   (Int_EncodeABI i v = Inr o1 \<longrightarrow> length o1 = length v + 32) \<and>
   (Data_EncodeABI d v = Inr o2 \<longrightarrow> length o2 = length v + 32) \<and>
   length (padint n v) = length v + 32 \<and>
   (IntSlice_EncodeABI xs v = Inr o3 \<longrightarrow> length o3 = length v + 32 * length xs) \<and>
   length (AddrSlice_EncodeABI as v) = length v + 32 * length as"
  using ABIEncode_length [of HashString fn args out]
  by (simp add: length_Int_EncodeABI length_Data_EncodeABI length_IntSlice_EncodeABI)

theorem C5_output_length_witness:
  "ABIEncode (\<lambda>s. Abs_hash (replicate 32 0)) ''f(uint256,address[])''
     [IntVal 5, AddrSlice [Abs_address (replicate 20 1), Abs_address (replicate 20 1)]] =
     Inr (replicate 4 0 @ be_word 5 @ be_word 64 @ be_word 2
          @ (replicate 12 0 @ replicate 20 1) @ (replicate 12 0 @ replicate 20 1)) \<and>
   length (replicate 4 0 @ be_word 5 @ be_word 64 @ be_word 2
          @ (replicate 12 0 @ replicate 20 (1 :: byte)) @ (replicate 12 0 @ replicate 20 1))
     = 4 + 32 * 5 \<and>
   Int_EncodeABI 5 [] = Inr (be_word 5) \<and> length (be_word 5) = 32 \<and>
   Data_EncodeABI [1, 2, 3] [] = Inr ([1, 2, 3] @ replicate 29 0) \<and>
   IntSlice_EncodeABI [5, 5] [] = Inr (be_word 5 @ be_word 5)"
proof -
  let ?H = "\<lambda>s :: string. Abs_hash (replicate 32 0)"
  let ?a = "Abs_address (replicate 20 1)"
  let ?out = "replicate 4 0 @ be_word 5 @ be_word 64 @ be_word 2
          @ (replicate 12 0 @ replicate 20 (1 :: byte)) @ (replicate 12 0 @ replicate 20 1)"
  have enc: "ABIEncode ?H ''f(uint256,address[])'' [IntVal 5, AddrSlice [?a, ?a]] = Inr ?out"
    using ABIEncode_uint_addresses [of 5 ?H ?a ?a]
    by (simp add: Rep_address_ones Rep_hash_zeros)
  have i5: "Int_EncodeABI 5 [] = Inr (be_word 5)"
    by (simp add: Int_EncodeABI_def Bytes_def copy_at_def copy_def zero_word_def be_word_def)
  have d3: "Data_EncodeABI [1, 2, 3] [] = Inr ([1, 2, 3] @ replicate 29 0)"
    by (simp add: Data_EncodeABI_def copy_def zero_word_def)
  have s5: "IntSlice_EncodeABI [5, 5] [] = Inr (be_word 5 @ be_word 5)"
    by (simp add: Int_EncodeABI_def Bytes_def copy_at_def copy_def zero_word_def be_word_def)
  from enc i5 d3 s5
    C5_output_length [where HashString = ?H and fn = "''f(uint256,address[])''"
      and args = "[IntVal 5, AddrSlice [?a, ?a]]" and out = ?out
      and i = 5 and v = "[]" and ?o1.0 = "be_word 5" and d = "[1, 2, 3]"
      and ?o2.0 = "[1, 2, 3] @ replicate 29 0" and xs = "[5, 5]"
      and ?o3.0 = "be_word 5 @ be_word 5"]
  show ?thesis by simp
qed

text \<open>
  C6. An Address is encoded as 12 zero bytes and its 20 bytes; a Data of at most 32 bytes as
  its bytes and zero bytes up to 32.
\<close>

theorem C6_padding:
  "Address_EncodeABI a v = v @ replicate 12 0 @ Rep_address a \<and>
   length (Rep_address a) = 20 \<and>
   (length d \<le> 32 \<longrightarrow> Data_EncodeABI d v = Inr (v @ d @ replicate (32 - length d) 0))"
  by (simp add: Address_EncodeABI_eq Data_EncodeABI_eq)

theorem C6_padding_witness:
  "Address_EncodeABI (Abs_address (replicate 20 1)) [] = replicate 12 0 @ replicate 20 1 \<and>
   Data_EncodeABI [1, 2, 3] [] = Inr ([1, 2, 3] @ replicate 29 0)"
  using C6_padding [of "Abs_address (replicate 20 1)" "[]" "[1, 2, 3]"]
  by (simp add: Rep_address_ones)

text \<open>
  C7. The output of \<^verbatim>\<open>ABIEncode\<close> starts with the first 4 bytes of the hash of the signature
  string, also when there is no argument.
\<close>

theorem C7_selector:
  "(ABIEncode HashString fn args = Inr out \<longrightarrow>
      take 4 out = take 4 (Rep_hash (HashString fn)) \<and> 4 \<le> length out) \<and>
   (typecheck fn [] = Inr () \<longrightarrow>
      ABIEncode HashString fn [] = Inr (take 4 (Rep_hash (HashString fn))))"
  using ABIEncode_selector [of HashString fn args out] ABIEncode_length [of HashString fn args out]
    ABIEncode_no_args [of fn HashString]
  by simp

theorem C7_selector_witness:
  "ABIEncode (\<lambda>s. Abs_hash (replicate 32 7)) ''f()'' [] = Inr (replicate 4 7) \<and>
   take 4 (replicate 4 (7 :: byte)) = take 4 (Rep_hash (Abs_hash (replicate 32 7)))"
proof -
  have tc: "typecheck ''f()'' [] = Inr ()"
    by (simp add: typecheck_eval)
  have rep: "Rep_hash (Abs_hash (replicate 32 7)) = replicate 32 7"
    by (simp add: Abs_hash_inverse)
  from tc rep
    C7_selector [where HashString = "\<lambda>s. Abs_hash (replicate 32 7)" and fn = "''f()''"
      and args = "[]" and out = "replicate 4 7"]
  show ?thesis by simp
qed

text \<open>
  C8. \<^verbatim>\<open>blocknum\<close> maps \<^verbatim>\<open>earliest\<close> to 0, \<^verbatim>\<open>latest\<close> and \<^verbatim>\<open>pending\<close> to their
  sentinels, and hands every other token to \<^verbatim>\<open>ParseInt\<close> with base 0: a decimal number
  (without a leading 0) and a hexadecimal number after \<^verbatim>\<open>0x\<close>, below \<open>2 ^ 63\<close>, give their
  value, so that \<^verbatim>\<open>0x10\<close> gives 16; a token that does not parse, such as \<^verbatim>\<open>bogus\<close> and
  every other token that starts with a letter, is a fatal error.
\<close>

theorem C8_blocknum:
  "blocknum ''earliest'' = Inr 0 \<and>
   blocknum ''latest'' = Inr Latest \<and>
   blocknum ''pending'' = Inr Pending \<and>
   blocknum ''0x10'' = Inr 16 \<and>
   blocknum ''bogus'' = Inl BadBlockSpecifier \<and>
   kind_of BadBlockSpecifier = MalformedBlockSpecifier \<and>
   (s \<noteq> ''earliest'' \<and> s \<noteq> ''latest'' \<and> s \<noteq> ''pending'' \<longrightarrow>
      blocknum s = (case ParseInt s 0 64 of
                      (bn, Some err) \<Rightarrow> Inl BadBlockSpecifier
                    | (bn, None) \<Rightarrow> Inr bn)) \<and>
   (ds \<noteq> [] \<and> list_all is_digit ds \<and> ds ! 0 \<noteq> CHR ''0'' \<and> dec_value ds < 2 ^ 63 \<longrightarrow>
      blocknum ds = Inr (of_nat (dec_value ds))) \<and>
   (hs \<noteq> [] \<and> list_all is_hex hs \<and> hex_value hs < 2 ^ 63 \<longrightarrow>
      blocknum (''0x'' @ hs) = Inr (of_nat (hex_value hs))) \<and>
   (is_letter c \<and> c # cs \<noteq> ''earliest'' \<and> c # cs \<noteq> ''latest'' \<and> c # cs \<noteq> ''pending'' \<longrightarrow>
      blocknum (c # cs) = Inl BadBlockSpecifier)"
proof -
  have t1: "blocknum ''earliest'' = Inr 0" by (simp add: blocknum_def)
  have t2: "blocknum ''latest'' = Inr Latest" by (simp add: blocknum_def)
  have t3: "blocknum ''pending'' = Inr Pending" by (simp add: blocknum_def)
  have t4: "blocknum ''0x10'' = Inr 16" by (simp add: parse_eval)
  have t5: "blocknum ''bogus'' = Inl BadBlockSpecifier" by (simp add: parse_eval)
  have t6: "kind_of BadBlockSpecifier = MalformedBlockSpecifier" by simp
  note t7 = blocknum_other [of s]
  note t8 = blocknum_decimal [of ds]
  note t9 = blocknum_hex [of hs]
  note t10 = blocknum_letter_first [of c cs]
  from t1 t2 t3 t4 t5 t6 t7 t8 t9 t10 show ?thesis by blast
qed

theorem C8_blocknum_witness:
  "blocknum ''42'' = Inr 42 \<and> ParseInt ''42'' 0 64 = (42, None) \<and>
   blocknum ''0x1f'' = Inr 31 \<and>
   is_letter (CHR ''b'') \<and> blocknum ''bogus'' = Inl BadBlockSpecifier \<and>
   blocknum ''0x10'' = Inr 16"
proof -
  have p: "ParseInt ''42'' 0 64 = (42, None)" by (simp add: parse_eval)
  have d: "list_all is_digit ''42'' \<and> dec_value ''42'' = 42"
    by (simp add: is_digit_def dec_value_def)
  have h: "list_all is_hex ''1f'' \<and> hex_value ''1f'' = 31"
    by (simp add: is_hex_def hex_value_def hex_digit_def)
  have l: "is_letter (CHR ''b'')" by (simp add: is_letter_def)
  from p d h l
    C8_blocknum [where s = "''42''" and ds = "''42''" and hs = "''1f''"
      and c = "CHR ''b''" and cs = "''ogus''"]
  show ?thesis by simp
qed

text \<open>
  C9. \<^verbatim>\<open>StorageAt\<close> sends the string literal \<^verbatim>\<open>"pending"\<close> for the pending sentinel and
  \<^verbatim>\<open>"latest"\<close> for the latest one, and the decimal number for every other block.
\<close>

theorem C9_StorageAt_block:
  "StorageAt do ma mh addr offset Pending = do ''eth_getStorageAt'' [ma addr, mh offset, rawpending] \<and>
   StorageAt do ma mh addr offset Latest = do ''eth_getStorageAt'' [ma addr, mh offset, rawlatest] \<and>
   rawpending = [CHR 0x22] @ ''pending'' @ [CHR 0x22] \<and>
   rawlatest = [CHR 0x22] @ ''latest'' @ [CHR 0x22] \<and>
   \<not> json_number rawpending \<and> \<not> json_number rawlatest \<and>
   (block \<noteq> Pending \<and> block \<noteq> Latest \<longrightarrow>
      StorageAt do ma mh addr offset block =
        do ''eth_getStorageAt'' [ma addr, mh offset, Marshal_int64 block] \<and>
      json_number (Marshal_int64 block) \<and> json_value (Marshal_int64 block) = sint block)"
  by (simp add: StorageAt_def Pending_def Latest_def raw_not_number
        json_number_Marshal_int64 json_value_Marshal_int64)
    (simp add: rawpending_def rawlatest_def)

theorem C9_StorageAt_block_witness:
  "(16 :: 64 word) \<noteq> Pending \<and> (16 :: 64 word) \<noteq> Latest \<and>
   StorageAt (\<lambda>m ps. (m, ps)) (\<lambda>a. ''A'') (\<lambda>h. ''H'')
       (Abs_address (replicate 20 1)) (Abs_hash (replicate 32 0)) 16 =
     (''eth_getStorageAt'', [''A'', ''H'', ''16'']) \<and>
   json_number ''16'' \<and> json_value ''16'' = 16"
proof -
  have ne: "(16 :: 64 word) \<noteq> Pending \<and> (16 :: 64 word) \<noteq> Latest"
    by (simp add: Pending_def Latest_def)
  have m: "Marshal_int64 16 = ''16''"
    by (simp add: Marshal_int64_def dec_digits.simps digits_def)
  from ne m
    C9_StorageAt_block [where block = 16 and do = "\<lambda>m ps. (m, ps)" and ma = "\<lambda>a. ''A''"
      and mh = "\<lambda>h. ''H''" and addr = "Abs_address (replicate 20 1)"
      and offset = "Abs_hash (replicate 32 0)"]
  show ?thesis by simp
qed

text \<open>
  C10. If the parenthesised part of a signature that passes the character and parenthesis
  checks holds no comma, \<^verbatim>\<open>typecheck\<close> accepts every argument list.
\<close>

theorem C10_no_comma_accepts_all:
  "\<not> ContainsAny f illegal \<Longrightarrow> IndexByte f (CHR ''('') \<noteq> - 1 \<Longrightarrow>
   IndexByte f (CHR '')'') = int (length f) - 1 \<Longrightarrow>
   \<not> Contains (substr f (IndexByte f (CHR ''('') + 1) (IndexByte f (CHR '')''))) (CHR '','') \<Longrightarrow>
   typecheck f args = Inr ()"
  by (rule typecheck_no_comma)

theorem C10_no_comma_accepts_all_witness:
  "\<not> ContainsAny ''foo(address)'' illegal \<and> IndexByte ''foo(address)'' (CHR ''('') \<noteq> - 1 \<and>
   IndexByte ''foo(address)'' (CHR '')'') = int (length ''foo(address)'') - 1 \<and>
   \<not> Contains (substr ''foo(address)'' (IndexByte ''foo(address)'' (CHR ''('') + 1)
        (IndexByte ''foo(address)'' (CHR '')''))) (CHR '','') \<and>
   typecheck ''foo(address)'' [IntVal 1, Data [], IntSlice [2]] = Inr ()"
proof -
  have h1: "\<not> ContainsAny ''foo(address)'' illegal"
    by (simp add: ContainsAny_def illegal_def)
  have h2: "IndexByte ''foo(address)'' (CHR ''('') \<noteq> - 1" by simp
  have h3: "IndexByte ''foo(address)'' (CHR '')'') = int (length ''foo(address)'') - 1" by simp
  have h4: "\<not> Contains (substr ''foo(address)'' (IndexByte ''foo(address)'' (CHR ''('') + 1)
        (IndexByte ''foo(address)'' (CHR '')''))) (CHR '','')"
    by (simp add: Contains_def substr_def)
  from C10_no_comma_accepts_all [OF h1 h2 h3 h4, of "[IntVal 1, Data [], IntSlice [2]]"] h1 h2 h3 h4
  show ?thesis by blast
qed

end
